theory Spec2Isabelle
  imports Main "HOL-Library.Word"
begin

section \<open>The virtio pmem character driver\<close>

text \<open>
  A shallow embedding of \<^verbatim>\<open>drivers/char/virtio_pmem/virtio_pmem_char.c\<close> and of the
  structures of \<^verbatim>\<open>virtio_pmem_char.h\<close>.

  Machine integers are 64-bit words, as on a 64-bit kernel: \<^verbatim>\<open>__u64\<close>,
  \<^verbatim>\<open>size_t\<close> and \<^verbatim>\<open>unsigned long long\<close> are read with \<open>uint\<close>/\<open>unat\<close>,
  \<^verbatim>\<open>loff_t\<close> and \<^verbatim>\<open>ssize_t\<close> with \<open>sint\<close>. Addition and subtraction wrap
  around, also the signed ones (the kernel is compiled with wrapping signed arithmetic).
  The order \<open>\<le>\<close>, \<open><\<close> on words is the unsigned one, which is the comparison C
  performs when one operand is \<^verbatim>\<open>__u64\<close> (the usual arithmetic conversions turn
  the signed \<^verbatim>\<open>loff_t\<close> operand into an unsigned one).
\<close>

type_synonym u64 = "64 word"
type_synonym byte = "8 word"

subsection \<open>Error returns\<close>

text \<open>
  The file operations return a negative errno value in place of a position or a byte
  count. These are the errno values the source file uses, with their numbers.

  For \<^verbatim>\<open>pmem_read\<close> and \<^verbatim>\<open>pmem_write\<close> the model returns \<open>Inl e\<close> for
  \<^verbatim>\<open>-e\<close> and \<open>Inr n\<close> for a byte count \<open>n\<close>. For \<^verbatim>\<open>pmem_lseek\<close> the model
  returns the one \<^verbatim>\<open>loff_t\<close> the C function returns, as its 64 bits: a position the
  function has stored can be the same 64 bits as a negative errno value, and the caller
  cannot tell them apart.
\<close>

datatype errno = EIO | ENOMEM | EFAULT | EINVAL | ESPIPE

fun errno_number :: "errno \<Rightarrow> u64" where
  "errno_number EIO = 5"
| "errno_number ENOMEM = 12"
| "errno_number EFAULT = 14"
| "errno_number EINVAL = 22"
| "errno_number ESPIPE = 29"

text \<open>The value \<^verbatim>\<open>-e\<close> as the 64 bits of a \<^verbatim>\<open>loff_t\<close>.\<close>

definition neg_errno :: "errno \<Rightarrow> u64" where
  "neg_errno e = - errno_number e"

text \<open>
  What a caller takes for an error: the kernel's \<^verbatim>\<open>IS_ERR_VALUE\<close>, which holds of the
  values \<^verbatim>\<open>-MAX_ERRNO\<close> to \<^verbatim>\<open>-1\<close>, with \<^verbatim>\<open>MAX_ERRNO\<close> 4095. The comparison
  is the unsigned one.
\<close>

definition MAX_ERRNO :: u64 where
  "MAX_ERRNO = 4095"

definition IS_ERR_VALUE :: "u64 \<Rightarrow> bool" where
  "IS_ERR_VALUE x \<longleftrightarrow> x \<ge> - MAX_ERRNO"

subsection \<open>Data\<close>

text \<open>
  \<^verbatim>\<open>struct virtio_pmem_request\<close>: the request and response payloads, the flag
  \<^verbatim>\<open>done\<close> on which the submitter of a flush waits (wait queue \<^verbatim>\<open>host_acked\<close>),
  and the flag \<^verbatim>\<open>wq_buf_avail\<close> on which a deferred request waits for a free
  virtqueue buffer (wait queue \<^verbatim>\<open>wq_buf\<close>). The two wait queues hold the sleeping
  submitter; a sleeper leaves only when its flag is set and the queue is woken. The
  \<^verbatim>\<open>list\<close> link is the membership in \<open>req_list\<close> below.
\<close>

record virtio_pmem_request =
  req_type :: "32 word"
  resp_ret :: "32 word"
  done_flag :: bool
  wq_buf_avail :: bool

text \<open>
  \<^verbatim>\<open>struct virtio_pmem\<close>. Requests are named by handles (natural numbers);
  \<open>req_vq\<close> is the request virtqueue with the handles of the buffers it holds (\<open>None\<close>
  when there is no virtqueue), \<open>req_list\<close> the list of deferred requests. The field
  \<^verbatim>\<open>size\<close> is called \<open>size_bytes\<close> here.
\<close>

record virtio_pmem =
  req_vq :: "nat list option"
  req_list :: "nat list"
  start :: u64
  size_bytes :: u64

text \<open>\<^verbatim>\<open>struct file\<close>: only the file position is used.\<close>

record file_struct =
  f_pos :: u64

text \<open>
  The part of the kernel state the read and write paths touch: physical memory, the
  \<^verbatim>\<open>ioremap\<close> mappings that are live (physical start address and length), the
  \<^verbatim>\<open>kmalloc\<close> buffers that are live (by size), and the number of mappings
  established so far.
\<close>

record kstate =
  phys :: "u64 \<Rightarrow> byte"
  iomaps :: "(u64 \<times> u64) list"
  kbufs :: "u64 list"
  n_ioremap :: nat

text \<open>
  Whether the kernel can serve the next \<^verbatim>\<open>ioremap\<close> and the next
  \<^verbatim>\<open>kmalloc\<close>. Each is called at most once per read or write.
\<close>

record alloc_env =
  can_ioremap :: bool
  can_kmalloc :: bool

subsection \<open>Kernel services\<close>

text \<open>\<^verbatim>\<open>ioremap\<close> returns \<^verbatim>\<open>NULL\<close> (\<open>None\<close>) or a mapping of the range.\<close>

definition ioremap :: "alloc_env \<Rightarrow> u64 \<Rightarrow> u64 \<Rightarrow> kstate \<Rightarrow> (u64 \<times> u64) option \<times> kstate" where
  "ioremap env addr n k =
     (if can_ioremap env
      then (Some (addr, n), k\<lparr>iomaps := (addr, n) # iomaps k, n_ioremap := Suc (n_ioremap k)\<rparr>)
      else (None, k))"

definition iounmap :: "u64 \<times> u64 \<Rightarrow> kstate \<Rightarrow> kstate" where
  "iounmap m k = k\<lparr>iomaps := remove1 m (iomaps k)\<rparr>"

text \<open>\<^verbatim>\<open>kmalloc\<close> returns \<^verbatim>\<open>NULL\<close> (\<open>None\<close>) or a buffer of the size asked for.\<close>

definition kmalloc :: "alloc_env \<Rightarrow> u64 \<Rightarrow> kstate \<Rightarrow> u64 option \<times> kstate" where
  "kmalloc env n k =
     (if can_kmalloc env then (Some n, k\<lparr>kbufs := n # kbufs k\<rparr>) else (None, k))"

definition kfree :: "u64 \<Rightarrow> kstate \<Rightarrow> kstate" where
  "kfree b k = k\<lparr>kbufs := remove1 b (kbufs k)\<rparr>"

text \<open>\<^verbatim>\<open>memcpy_fromio\<close>: the \<open>n\<close> bytes at the start of a mapping.\<close>

definition memcpy_fromio :: "kstate \<Rightarrow> u64 \<times> u64 \<Rightarrow> u64 \<Rightarrow> byte list" where
  "memcpy_fromio k m n = map (\<lambda>i. phys k (fst m + of_nat i)) [0..<unat n]"

text \<open>
  \<^verbatim>\<open>copy_to_user\<close>. The caller's buffer is the list of the bytes that are writable at
  the user address \<^verbatim>\<open>buf\<close>. The bytes that fit are copied; the result is the buffer
  and the number of bytes that could not be copied (zero on success).
\<close>

definition copy_to_user :: "byte list \<Rightarrow> byte list \<Rightarrow> byte list \<times> nat" where
  "copy_to_user ubuf data =
     (take (length ubuf) data @ drop (length data) ubuf, length data - length ubuf)"

subsection \<open>Seek\<close>

definition SEEK_SET :: int where "SEEK_SET = 0"
definition SEEK_CUR :: int where "SEEK_CUR = 1"
definition SEEK_END :: int where "SEEK_END = 2"

text \<open>
  \<^verbatim>\<open>pmem_lseek\<close> (lines 39-72). The result is the value of \<^verbatim>\<open>newpos\<close> that is
  returned, and the file. The comparisons \<^verbatim>\<open>off >= vpmem->size\<close> and
  \<^verbatim>\<open>newpos >= vpmem->size\<close> are unsigned; \<^verbatim>\<open>filp->f_pos + off\<close> wraps; the
  three \<^verbatim>\<open>goto out\<close> skip the assignment to \<^verbatim>\<open>filp->f_pos\<close>; on the other paths
  \<^verbatim>\<open>newpos\<close> is stored and returned, whatever its sign.
\<close>

definition pmem_lseek :: "virtio_pmem \<Rightarrow> file_struct \<Rightarrow> u64 \<Rightarrow> int \<Rightarrow> u64 \<times> file_struct" where
  "pmem_lseek vpmem filp off whence =
     (if whence = SEEK_SET then
        (if off \<ge> size_bytes vpmem then (neg_errno ESPIPE, filp)
         else (off, filp\<lparr>f_pos := off\<rparr>))
      else if whence = SEEK_CUR then
        (let newpos = f_pos filp + off in
         if newpos \<ge> size_bytes vpmem then (neg_errno ESPIPE, filp)
         else (newpos, filp\<lparr>f_pos := newpos\<rparr>))
      else if whence = SEEK_END then
        (let newpos = size_bytes vpmem in (newpos, filp\<lparr>f_pos := newpos\<rparr>))
      else (neg_errno EINVAL, filp))"

subsection \<open>Read and write\<close>

text \<open>
  The clamp both \<^verbatim>\<open>pmem_write\<close> (lines 81-82) and \<^verbatim>\<open>pmem_read\<close> (lines 117-118)
  start with: \<^verbatim>\<open>if (count > vpmem->size - pos) count = vpmem->size - pos;\<close>. The
  subtraction is unsigned and wraps when \<open>pos\<close> is beyond \<open>size\<close>.
\<close>

definition clamp_count :: "virtio_pmem \<Rightarrow> u64 \<Rightarrow> u64 \<Rightarrow> u64" where
  "clamp_count vpmem pos count =
     (if count > size_bytes vpmem - pos then size_bytes vpmem - pos else count)"

text \<open>
  \<^verbatim>\<open>pmem_read\<close> (lines 110-148). Arguments: the device, the allocation environment,
  the caller's buffer, \<^verbatim>\<open>count\<close>, \<^verbatim>\<open>*ppos\<close> and the kernel state. Result: the
  return value, the caller's buffer, \<^verbatim>\<open>*ppos\<close> and the kernel state.
\<close>

definition pmem_read ::
  "virtio_pmem \<Rightarrow> alloc_env \<Rightarrow> byte list \<Rightarrow> u64 \<Rightarrow> u64 \<Rightarrow> kstate \<Rightarrow>
     (errno + u64) \<times> byte list \<times> u64 \<times> kstate" where
  "pmem_read vpmem env buf count0 ppos k =
     (let pos = ppos;
          count = clamp_count vpmem pos count0
      in if count = 0 then (Inr 0, buf, ppos, k)
      else
        let map_start_addr = start vpmem + pos in
        case ioremap env map_start_addr count k of
          (None, k1) \<Rightarrow> (Inl ENOMEM, buf, ppos, k1)
        | (Some pmem_addr, k1) \<Rightarrow>
            (case kmalloc env count k1 of
               (None, k2) \<Rightarrow> (Inl ENOMEM, buf, ppos, iounmap pmem_addr k2)
             | (Some temp_buf, k2) \<Rightarrow>
                 (let data = memcpy_fromio k2 pmem_addr count;
                      (buf', left) = copy_to_user buf data
                  in if left \<noteq> 0
                     then (Inl EFAULT, buf', ppos, kfree temp_buf (iounmap pmem_addr k2))
                     else (Inr count, buf', ppos + count,
                           kfree temp_buf (iounmap pmem_addr k2)))))"

text \<open>
  \<^verbatim>\<open>pmem_write\<close> (lines 74-108). Arguments and result as for \<open>pmem_read\<close>, without
  the caller's buffer in the result. The statement after \<^verbatim>\<open>kmalloc\<close> is
  \<^verbatim>\<open>
    if (!temp_buf)
            count = -ENOMEM;
            goto out;
  \<close>
  with no braces: the \<^verbatim>\<open>if\<close> governs the assignment only, and \<^verbatim>\<open>goto out\<close> on
  line 93 is taken on every path. Lines 95-101 (\<^verbatim>\<open>copy_from_user\<close>,
  \<^verbatim>\<open>memcpy_toio\<close> and \<^verbatim>\<open>*ppos += count\<close>) are never reached, so the model has
  no branch for them: after \<^verbatim>\<open>kmalloc\<close> the function unmaps, frees the buffer if
  there is one, and returns \<^verbatim>\<open>count\<close>.
\<close>

definition pmem_write ::
  "virtio_pmem \<Rightarrow> alloc_env \<Rightarrow> byte list \<Rightarrow> u64 \<Rightarrow> u64 \<Rightarrow> kstate \<Rightarrow>
     (errno + u64) \<times> u64 \<times> kstate" where
  "pmem_write vpmem env buf count0 ppos k =
     (let pos = ppos;
          count = clamp_count vpmem pos count0
      in if count = 0 then (Inr 0, ppos, k)
      else
        let map_start_addr = start vpmem + pos in
        case ioremap env map_start_addr count k of
          (None, k1) \<Rightarrow> (Inl ENOMEM, ppos, k1)
        | (Some pmem_addr, k1) \<Rightarrow>
            (case kmalloc env count k1 of
               (None, k2) \<Rightarrow> (Inl ENOMEM, ppos, iounmap pmem_addr k2)
             | (Some temp_buf, k2) \<Rightarrow>
                 (Inr count, ppos, kfree temp_buf (iounmap pmem_addr k2))))"

subsection \<open>Teardown\<close>

text \<open>
  The state \<^verbatim>\<open>virtio_pmem_remove\<close> acts on: the device structure (the global
  \<^verbatim>\<open>vpmem\<close>), the request records by handle (each is owned by the caller that
  submitted it), whether the virtio device has been reset, whether the memory region is
  reserved, and whether the misc device \<^verbatim>\<open>pmem_miscdev\<close> is registered.
\<close>

record driver =
  vpmem_global :: virtio_pmem
  requests :: "nat \<Rightarrow> virtio_pmem_request option"
  dev_reset :: bool
  region_reserved :: bool
  misc_registered :: bool

text \<open>
  \<^verbatim>\<open>virtio_pmem_remove\<close> (lines 211-217): \<^verbatim>\<open>del_vqs\<close> deletes the virtqueue,
  \<^verbatim>\<open>virtio_reset_device\<close> resets the device, \<^verbatim>\<open>devm_release_mem_region\<close>
  releases the region and \<^verbatim>\<open>misc_deregister\<close> removes the device node. No statement
  reads or writes \<^verbatim>\<open>req_list\<close> or a request.
\<close>

definition virtio_pmem_remove :: "driver \<Rightarrow> driver" where
  "virtio_pmem_remove d =
     d\<lparr>vpmem_global := (vpmem_global d)\<lparr>req_vq := None\<rparr>,
       dev_reset := True,
       region_reserved := False,
       misc_registered := False\<rparr>"

text \<open>
  A caller that submitted request \<open>h\<close> is still blocked when the record exists and its
  \<^verbatim>\<open>done\<close> flag is not set.
\<close>

definition caller_blocked :: "driver \<Rightarrow> nat \<Rightarrow> bool" where
  "caller_blocked d h = (case requests d h of None \<Rightarrow> False | Some r \<Rightarrow> \<not> done_flag r)"

section \<open>The flush request engine\<close>

text \<open>
  Modelled from the spec: the flush request engine. The header declares
  \<^verbatim>\<open>async_pmem_flush\<close> and \<^verbatim>\<open>virtio_pmem_host_ack\<close>; their definitions are not
  among the source files. The definitions of this section follow sections 3, 4.2 and 4.3
  of the specification. Requests are named by handles, given out in submission order;
  request and response payloads are opaque and left out.
\<close>

text \<open>
  Modelled from the spec: the engine's state (the body of \<^verbatim>\<open>async_pmem_flush\<close> and
  \<^verbatim>\<open>virtio_pmem_host_ack\<close> is missing). The CommandChannel with its fixed capacity
  and the requests in flight, the DeferredList, the requests whose completion flag is
  set, the completion notifications delivered so far (one entry per wake-up, in order),
  the requests retired, the number of \<open>notifyHost\<close> signals, and the number of requests
  constructed.
\<close>

record engine =
  capacity :: nat
  channel :: "nat list"
  deferred :: "nat list"
  flagged :: "nat set"
  wakeups :: "nat list"
  retired :: "nat set"
  host_notified :: nat
  submitted :: nat

text \<open>
  Modelled from the spec: the engine at initialization (missing code): the capacity is
  fixed, nothing is in flight, parked or acknowledged.
\<close>

definition engine_init :: "nat \<Rightarrow> engine" where
  "engine_init c =
     \<lparr>capacity = c, channel = [], deferred = [], flagged = {}, wakeups = [],
      retired = {}, host_notified = 0, submitted = 0\<rparr>"

text \<open>
  Modelled from the spec: the lifecycle of a request (section 3; the request engine is
  missing from the source files).
\<close>

datatype lifecycle = CREATED | QUEUED | DEFERRED | ACKED | RETIRED

text \<open>
  Modelled from the spec: the state of request \<open>r\<close> (section 3, missing code):
  retired, or acknowledged and awaiting retirement, or queued in the channel, or deferred
  in the list, or created and in none of them.
\<close>

definition lifecycle_of :: "engine \<Rightarrow> nat \<Rightarrow> lifecycle" where
  "lifecycle_of e r =
     (if r \<in> retired e then RETIRED
      else if r \<in> flagged e then ACKED
      else if r \<in> set (channel e) then QUEUED
      else if r \<in> set (deferred e) then DEFERRED
      else CREATED)"

text \<open>
  Modelled from the spec: \<open>offer\<close> of section 4.2 (the command channel's code is
  missing): places the request into the channel, or returns false without blocking when
  the capacity is exhausted.
\<close>

definition offer :: "nat \<Rightarrow> engine \<Rightarrow> bool \<times> engine" where
  "offer r e =
     (if length (channel e) < capacity e then (True, e\<lparr>channel := channel e @ [r]\<rparr>)
      else (False, e))"

text \<open>Modelled from the spec: \<open>notifyHost\<close> of section 4.2 (missing code): fire and forget.\<close>

definition notifyHost :: "engine \<Rightarrow> engine" where
  "notifyHost e = e\<lparr>host_notified := Suc (host_notified e)\<rparr>"

text \<open>
  Modelled from the spec: \<open>drainCompleted\<close> of section 4.2 (missing code). The host
  reports the handles \<open>hs\<close> it has finished, in completion order; the drain returns
  those that are in flight, each once, and takes them out of the channel.
\<close>

definition drainCompleted :: "nat list \<Rightarrow> engine \<Rightarrow> nat list \<times> engine" where
  "drainCompleted hs e =
     (let fin = filter (\<lambda>r. r \<in> set (channel e)) (remdups hs)
      in (fin, e\<lparr>channel := filter (\<lambda>r. r \<notin> set fin) (channel e)\<rparr>))"

text \<open>
  Modelled from the spec: steps 1 and 2 of \<open>submit\<close> (section 4.3; the body of
  \<^verbatim>\<open>async_pmem_flush\<close> is missing): construct the request with its flag cleared,
  offer it, notify the host if it was accepted and append it to the DeferredList if not.
  Step 3, the blocking wait, is the time until the request's wake-up; step 4 is
  \<open>retire\<close>.
\<close>

definition submit :: "engine \<Rightarrow> engine" where
  "submit e =
     (let r = submitted e;
          e0 = e\<lparr>submitted := Suc r, flagged := flagged e - {r}\<rparr>;
          (accepted, e1) = offer r e0
      in if accepted then notifyHost e1 else e1\<lparr>deferred := deferred e1 @ [r]\<rparr>)"

text \<open>
  Modelled from the spec: step 4 of \<open>submit\<close> (section 4.3, missing code): the woken
  caller consumes the status and the record is released. Only a request whose flag is set
  can be retired.
\<close>

definition retire :: "nat \<Rightarrow> engine \<Rightarrow> engine" where
  "retire r e = (if r \<in> flagged e then e\<lparr>retired := insert r (retired e)\<rparr> else e)"

text \<open>
  Modelled from the spec: step 2 of \<open>onHostSignal\<close> (section 4.3; the body of
  \<^verbatim>\<open>virtio_pmem_host_ack\<close> is missing): while the channel has free capacity and the
  DeferredList is not empty, pop its head and offer it, notifying the host. Each request
  offered is taken as a batch of its own; the number of notifications plays no part in
  the properties below.
\<close>

function promote :: "engine \<Rightarrow> engine" where
  "promote e =
     (case deferred e of
        [] \<Rightarrow> e
      | r # rest \<Rightarrow>
          if length (channel e) < capacity e
          then promote (notifyHost (snd (offer r (e\<lparr>deferred := rest\<rparr>))))
          else e)"
  by pat_completeness auto
termination
  by (relation "measure (\<lambda>e. length (deferred e))") (auto simp: notifyHost_def offer_def)

declare promote.simps [simp del]

text \<open>
  Modelled from the spec: \<open>onHostSignal\<close> (section 4.3; the body of
  \<^verbatim>\<open>virtio_pmem_host_ack\<close> is missing): drain the completed requests, set the flag
  of each and wake its caller, and that caller only; then promote deferred requests.
\<close>

definition onHostSignal :: "nat list \<Rightarrow> engine \<Rightarrow> engine" where
  "onHostSignal hs e =
     (let (fin, e1) = drainCompleted hs e;
          e2 = e1\<lparr>flagged := flagged e1 \<union> set fin, wakeups := wakeups e1 @ fin\<rparr>
      in promote e2)"

text \<open>
  Modelled from the spec: the events whose interleaving section 5 describes (missing
  code): a submission, a host signal with the handles the host has finished, and the
  retirement of a request by its woken caller. The shared lock makes each of them atomic.
\<close>

datatype event = Submit | HostSignal "nat list" | Retire nat

text \<open>
  Modelled from the spec: what one event does to the engine, and a finite interleaving
  run from a state (missing code).
\<close>

fun step :: "event \<Rightarrow> engine \<Rightarrow> engine" where
  "step Submit e = submit e"
| "step (HostSignal hs) e = onHostSignal hs e"
| "step (Retire r) e = retire r e"

definition run :: "event list \<Rightarrow> engine \<Rightarrow> engine" where
  "run es e = fold step es e"

text \<open>
  Modelled from the spec: a host signal at which the host reports every request in
  flight as completed (a host that acknowledges every accepted request at once).
\<close>

definition host_ack_all :: "engine \<Rightarrow> engine" where
  "host_ack_all e = onHostSignal (channel e) e"

text \<open>
  Modelled from the spec: an unbounded interleaving of events (section 5; the engine's
  code is missing). \<open>\<sigma> k\<close> is the event that happens at time \<open>k\<close>, and
  \<open>trace_state c \<sigma> k\<close> the state of an engine of capacity \<open>c\<close> before it.
\<close>

primrec trace_state :: "nat \<Rightarrow> (nat \<Rightarrow> event) \<Rightarrow> nat \<Rightarrow> engine" where
  "trace_state c \<sigma> 0 = engine_init c"
| "trace_state c \<sigma> (Suc k) = step (\<sigma> k) (trace_state c \<sigma> k)"

text \<open>
  Modelled from the spec: the assumption of the no-loss property of section 8, that the
  host eventually acknowledges every accepted request. It is an assumption on the
  host's events only: for a request that is in the channel at time \<open>k\<close>, the event at
  some time \<open>j\<close> from \<open>k\<close> on is a host signal that reports it finished. What the
  engine does with that signal is not assumed.
\<close>

definition fair_host :: "nat \<Rightarrow> (nat \<Rightarrow> event) \<Rightarrow> bool" where
  "fair_host c \<sigma> \<longleftrightarrow>
     (\<forall>k q. q \<in> set (channel (trace_state c \<sigma> k)) \<longrightarrow>
        (\<exists>j\<ge>k. \<exists>hs. \<sigma> j = HostSignal hs \<and> q \<in> set hs))"

text \<open>
  Modelled from the spec: the outcome the invariant of section 3 asks for (missing
  code). A request has been acknowledged once: its flag is set (it is \<open>ACKED\<close>, or
  \<open>RETIRED\<close> after that) and exactly one completion notification has been delivered
  to its caller. \<open>all_acked\<close> says so of every request submitted.
\<close>

definition acked_once :: "engine \<Rightarrow> nat \<Rightarrow> bool" where
  "acked_once e r \<longleftrightarrow>
     (lifecycle_of e r = ACKED \<or> lifecycle_of e r = RETIRED) \<and>
     count_list (wakeups e) r = 1"

definition all_acked :: "engine \<Rightarrow> bool" where
  "all_acked e \<longleftrightarrow> list_all (acked_once e) [0..<submitted e]"

text \<open>
  Modelled from the spec: the invariants of section 3 (missing code), with what their
  proof needs. Every request submitted is in exactly one of the channel,
  the DeferredList and the list of wake-ups, and in none of them twice; the flags are
  those of the requests woken; only flagged requests are retired; the channel holds at
  most \<open>capacity\<close> requests, and is full whenever a request is parked; the channel
  followed by the DeferredList is in submission order. \<open>pending_ahead e r\<close> are the
  requests submitted no later than \<open>r\<close> that are still in the channel or parked.
\<close>

definition pending_ahead :: "engine \<Rightarrow> nat \<Rightarrow> nat set" where
  "pending_ahead e r = {q. q \<le> r} \<inter> (set (channel e) \<union> set (deferred e))"

definition engine_inv :: "engine \<Rightarrow> bool" where
  "engine_inv e \<longleftrightarrow>
     distinct (channel e @ deferred e @ wakeups e) \<and>
     set (channel e) \<union> set (deferred e) \<union> set (wakeups e) = {0..<submitted e} \<and>
     flagged e = set (wakeups e) \<and>
     retired e \<subseteq> flagged e \<and>
     length (channel e) \<le> capacity e \<and>
     (deferred e = [] \<or> length (channel e) = capacity e) \<and>
     sorted (channel e @ deferred e)"

section \<open>Example inputs\<close>

text \<open>
  A region of 16 bytes at physical address 4096, a kernel that can serve every
  allocation, and a memory that holds 0 inside the region and 255 outside.
\<close>

definition ex_vpmem :: virtio_pmem where
  "ex_vpmem = \<lparr>req_vq = Some [], req_list = [], start = 4096, size_bytes = 16\<rparr>"

definition ex_env :: alloc_env where
  "ex_env = \<lparr>can_ioremap = True, can_kmalloc = True\<rparr>"

definition ex_kstate :: kstate where
  "ex_kstate =
     \<lparr>phys = (\<lambda>a. if 4096 \<le> a \<and> a < 4112 then 0 else 255),
      iomaps = [], kbufs = [], n_ioremap = 0\<rparr>"

text \<open>
  The teardown scenario of section 8 of the specification: five requests submitted to a
  virtqueue that takes two, so that requests 0 and 1 are in the virtqueue and requests
  2, 3 and 4 are deferred; the host has acknowledged none.
\<close>

definition ex_request :: virtio_pmem_request where
  "ex_request = \<lparr>req_type = 0, resp_ret = 0, done_flag = False, wq_buf_avail = False\<rparr>"

definition ex_driver :: driver where
  "ex_driver =
     \<lparr>vpmem_global = ex_vpmem\<lparr>req_vq := Some [0, 1], req_list := [2, 3, 4]\<rparr>,
      requests = (\<lambda>h. if h < 5 then Some ex_request else None),
      dev_reset = False, region_reserved = True, misc_registered = True\<rparr>"

text \<open>
  An interleaving of five submissions with a host signal that completes request 1 only,
  and with the retirement of request 1.
\<close>

definition ex_events :: "event list" where
  "ex_events = [Submit, Submit, Submit, HostSignal [1], Submit, Retire 1, Submit]"

text \<open>
  The same interleaving, followed for ever by host signals that report the completion of
  all five requests, and the state it ends in.
\<close>

definition ex_trace :: "nat \<Rightarrow> event" where
  "ex_trace i = (if i < length ex_events then ex_events ! i else HostSignal [0, 1, 2, 3, 4])"

definition ex_final :: engine where
  "ex_final =
     \<lparr>capacity = 2, channel = [], deferred = [], flagged = {0, 1, 2, 3, 4},
      wakeups = [1, 0, 2, 3, 4], retired = {1}, host_notified = 5, submitted = 5\<rparr>"

text \<open>
  A channel of capacity 0 and one submission followed for ever by host signals, and the
  state the engine is in from the submission on.
\<close>

definition ex_stuck :: "nat \<Rightarrow> event" where
  "ex_stuck i = (if i = 0 then Submit else HostSignal [0])"

definition ex_stuck_state :: engine where
  "ex_stuck_state =
     \<lparr>capacity = 0, channel = [], deferred = [0], flagged = {}, wakeups = [],
      retired = {}, host_notified = 0, submitted = 1\<rparr>"

text \<open>A region of \<open>2 ^ 64 - 22\<close> bytes: more than a \<^verbatim>\<open>loff_t\<close> can hold.\<close>

definition ex_huge :: virtio_pmem where
  "ex_huge = \<lparr>req_vq = Some [], req_list = [], start = 0, size_bytes = - 22\<rparr>"

section \<open>Properties of the physical window access\<close>

subsection \<open>Auxiliary facts\<close>

lemmas ex_defs = ex_vpmem_def ex_env_def ex_kstate_def

lemmas rw_defs =
  pmem_write_def pmem_read_def clamp_count_def ioremap_def kmalloc_def iounmap_def
  kfree_def memcpy_fromio_def copy_to_user_def

lemma sint64_cases: "sint (x::u64) = (if uint x < 2 ^ 63 then uint x else uint x - 2 ^ 64)"
proof -
  have b: "0 \<le> uint x" "uint x < 2 ^ 64"
    using uint_bounded[of x] by simp_all
  have s: "sint x = (uint x + 2 ^ 63) mod 2 ^ 64 - 2 ^ 63"
    by (simp add: sint_uint signed_take_bit_eq_take_bit_shift take_bit_eq_mod)
  show ?thesis
  proof (cases "uint x < 2 ^ 63")
    case True
    then have "(uint x + 2 ^ 63) mod 2 ^ 64 = uint x + 2 ^ 63"
      using b by (intro mod_pos_pos_trivial) simp_all
    with True s show ?thesis by simp
  next
    case False
    have "uint x + 2 ^ 63 = (uint x - 2 ^ 63) + 2 ^ 64"
      by simp
    then have "(uint x + 2 ^ 63) mod 2 ^ 64 = ((uint x - 2 ^ 63) + 2 ^ 64) mod 2 ^ 64"
      by (rule arg_cong)
    also have "\<dots> = (uint x - 2 ^ 63) mod 2 ^ 64"
      by (rule mod_add_self2)
    also have "\<dots> = uint x - 2 ^ 63"
      using False b by (intro mod_pos_pos_trivial) simp_all
    finally show ?thesis using False s by simp
  qed
qed

text \<open>
  For a size that a \<^verbatim>\<open>loff_t\<close> can hold, the unsigned comparison of the code is the
  comparison of the signed position with the size, together with the sign test.
\<close>

lemma word64_less_signed:
  assumes "uint (s::u64) \<le> 2 ^ 63"
  shows "(x < s) = (0 \<le> sint x \<and> sint x < uint s)"
proof -
  have b: "0 \<le> uint x" "uint x < 2 ^ 64"
    using uint_bounded[of x] by simp_all
  show ?thesis using assms b by (auto simp: word_less_alt sint64_cases)
qed

lemma clamp_count_le: "clamp_count vpmem ppos count \<le> size_bytes vpmem - ppos"
  by (simp add: clamp_count_def not_less)

lemma clamp_count_in_range:
  assumes "ppos \<le> size_bytes vpmem"
  shows "uint ppos + uint (clamp_count vpmem ppos count) \<le> uint (size_bytes vpmem)"
proof -
  have "uint (size_bytes vpmem - ppos) = uint (size_bytes vpmem) - uint ppos"
    using assms by (simp add: uint_sub_if' word_le_def)
  then show ?thesis
    using clamp_count_le[of vpmem ppos count] by (simp add: word_le_def)
qed

text \<open>What \<open>pmem_write\<close> leaves alone on every input: physical memory and the position.\<close>

lemma pmem_write_frame:
  "phys (snd (snd (pmem_write vpmem env buf count ppos k))) = phys k \<and>
   fst (snd (pmem_write vpmem env buf count ppos k)) = ppos"
  by (simp add: rw_defs Let_def split: prod.splits option.splits)

text \<open>A read at a position inside the region, or at its end, stays inside the region.\<close>

lemma pmem_read_at_most_remaining:
  assumes "ppos \<le> size_bytes vpmem"
    and "fst (pmem_read vpmem env buf count ppos k) = Inr n"
  shows "uint ppos + uint n \<le> uint (size_bytes vpmem)"
  using assms(2) clamp_count_in_range[OF assms(1), of count]
  by (auto simp: pmem_read_def ioremap_def kmalloc_def Let_def
      split: if_splits prod.splits)

subsection \<open>Write followed by read\<close>

text \<open>
  Claim C1 (round trip): writing bytes at an offset and reading the same range back
  returns the bytes written. The code does not do this. On the region of 16 zero bytes,
  \<open>pmem_write\<close> of the byte 171 at offset 0 returns the count 1, leaves the position at
  0 and stores nothing; \<open>pmem_read\<close> of one byte at offset 0 then returns the byte 0.
\<close>

theorem write_then_read_returns_old_bytes:
  "pmem_write ex_vpmem ex_env [171] 1 0 ex_kstate = (Inr 1, 0, ex_kstate\<lparr>n_ioremap := 1\<rparr>) \<and>
   pmem_read ex_vpmem ex_env [0] 1 0 (ex_kstate\<lparr>n_ioremap := 1\<rparr>) =
     (Inr 1, [0], 1, ex_kstate\<lparr>n_ioremap := 2\<rparr>)"
  by (simp add: rw_defs ex_defs Let_def)

text \<open>
  Claim C2 (write): for an offset inside the region and a non-empty buffer, \<open>write\<close>
  clamps the count, copies the caller's bytes into the mapped window and returns the
  number of bytes transferred. The code clamps and returns the clamped count, and
  transfers nothing: writing the bytes 1, 2, 3, 4 at offset 2 returns 4, and physical
  memory and the position are what they were.
\<close>

theorem pmem_write_stores_nothing:
  "pmem_write ex_vpmem ex_env [1, 2, 3, 4] 4 2 ex_kstate =
     (Inr 4, 2, ex_kstate\<lparr>n_ioremap := 1\<rparr>) \<and>
   phys (ex_kstate\<lparr>n_ioremap := 1\<rparr>) = phys ex_kstate"
  by (simp add: rw_defs ex_defs Let_def)

subsection \<open>Read\<close>

text \<open>
  Claim C5 (end of region and clamping): \<open>read\<close> returns zero bytes whenever the
  offset is at or beyond the size, and at most \<open>size - offset\<close> bytes otherwise. At
  offset 17 of the 16-byte region the unsigned difference \<open>size - pos\<close> wraps to
  \<open>2 ^ 64 - 1\<close>, the count 1 is not clamped, and the code maps physical address
  \<open>start + 17\<close> and returns the byte found there, which lies outside the region.
\<close>

theorem pmem_read_beyond_region:
  "clamp_count ex_vpmem 17 1 = 1 \<and>
   pmem_read ex_vpmem ex_env [0] 1 17 ex_kstate =
     (Inr 1, [255], 18, ex_kstate\<lparr>n_ioremap := 1\<rparr>)"
  by (simp add: rw_defs ex_defs Let_def)

text \<open>
  Claim C7 (errors and release of \<open>read\<close>): for a read inside the region whose clamped
  length is not zero, the result is \<open>ENOMEM\<close> exactly when the mapping or the buffer
  cannot be obtained; it is \<open>EFAULT\<close> exactly when the copy to the caller's buffer
  (which is attempted once both have been obtained) leaves bytes uncopied; and on every
  path the live mappings and the live buffers after the call are those before it.
\<close>

theorem pmem_read_errors_and_release:
  assumes "ppos < size_bytes vpmem"
    and "clamp_count vpmem ppos count \<noteq> 0"
    and "pmem_read vpmem env buf count ppos k = (r, buf', ppos', k')"
  shows "(r = Inl ENOMEM \<longleftrightarrow> \<not> can_ioremap env \<or> \<not> can_kmalloc env) \<and>
     (r = Inl EFAULT \<longleftrightarrow>
        can_ioremap env \<and> can_kmalloc env \<and>
        snd (copy_to_user buf
              (memcpy_fromio k (start vpmem + ppos, clamp_count vpmem ppos count)
                 (clamp_count vpmem ppos count))) \<noteq> 0) \<and>
     iomaps k' = iomaps k \<and> kbufs k' = kbufs k"
  using assms
  by (auto simp: pmem_read_def ioremap_def kmalloc_def iounmap_def kfree_def
      memcpy_fromio_def copy_to_user_def Let_def split: if_splits)

theorem pmem_read_errors_and_release_witness:
  "(14 :: u64) < size_bytes ex_vpmem \<and> clamp_count ex_vpmem 14 9 \<noteq> 0 \<and>
   pmem_read ex_vpmem ex_env [7] 9 14 ex_kstate =
     (Inl EFAULT, [0], 14, ex_kstate\<lparr>n_ioremap := 1\<rparr>) \<and>
   iomaps (ex_kstate\<lparr>n_ioremap := 1\<rparr>) = iomaps ex_kstate \<and>
   kbufs (ex_kstate\<lparr>n_ioremap := 1\<rparr>) = kbufs ex_kstate"
proof -
  have h: "(14 :: u64) < size_bytes ex_vpmem"
    by (simp add: ex_vpmem_def)
  have c: "clamp_count ex_vpmem 14 9 \<noteq> 0"
    by (simp add: clamp_count_def ex_vpmem_def)
  have r: "pmem_read ex_vpmem ex_env [7] 9 14 ex_kstate =
      (Inl EFAULT, [0], 14, ex_kstate\<lparr>n_ioremap := 1\<rparr>)"
    by (simp add: rw_defs ex_defs Let_def upt_conv_Cons)
  show ?thesis
    using h c r pmem_read_errors_and_release[OF h c r] by simp
qed



text \<open>
  Claim C10 (file position of \<open>read\<close>): for a read at a position inside the region
  (or at its end), a successful read advances the position by exactly the number of
  bytes it returns (with no wrap-around), and a read that fails, which it does with
  \<open>ENOMEM\<close> or \<open>EFAULT\<close> only, leaves the position unchanged.
\<close>

theorem pmem_read_position:
  assumes "ppos \<le> size_bytes vpmem"
    and "pmem_read vpmem env buf count ppos k = (r, buf', ppos', k')"
  shows "case r of
       Inr n \<Rightarrow> uint ppos' = uint ppos + uint n
     | Inl e \<Rightarrow> (e = ENOMEM \<or> e = EFAULT) \<and> ppos' = ppos"
proof -
  let ?c = "clamp_count vpmem ppos count"
  have "uint ppos + uint ?c \<le> uint (size_bytes vpmem)"
    using assms(1) by (rule clamp_count_in_range)
  then have "uint (ppos + ?c) = uint ppos + uint ?c"
    using uint_bounded[of "size_bytes vpmem"] by (simp add: uint_plus_if')
  then show ?thesis
    using assms(2)
    by (auto simp: pmem_read_def ioremap_def kmalloc_def iounmap_def kfree_def Let_def
        split: if_splits prod.splits sum.splits)
qed

theorem pmem_read_position_witness:
  "(14 :: u64) \<le> size_bytes ex_vpmem \<and>
   pmem_read ex_vpmem ex_env [7, 7, 7, 7] 9 14 ex_kstate =
     (Inr 2, [0, 0, 7, 7], 16, ex_kstate\<lparr>n_ioremap := 1\<rparr>) \<and>
   uint (16 :: u64) = uint (14 :: u64) + uint (2 :: u64)"
proof -
  have h: "(14 :: u64) \<le> size_bytes ex_vpmem"
    by (simp add: ex_vpmem_def)
  have r: "pmem_read ex_vpmem ex_env [7, 7, 7, 7] 9 14 ex_kstate =
      (Inr 2, [0, 0, 7, 7], 16, ex_kstate\<lparr>n_ioremap := 1\<rparr>)"
    by (simp add: rw_defs ex_defs Let_def upt_conv_Cons)
  show ?thesis
    using h r pmem_read_position[OF h r] by simp
qed

subsection \<open>Seek\<close>

text \<open>
  The error values are those from \<open>- 4095\<close> to \<open>- 1\<close>; the two that \<open>pmem_lseek\<close>
  returns are among them.
\<close>

lemma IS_ERR_VALUE_uint: "IS_ERR_VALUE x \<longleftrightarrow> 2 ^ 64 - 4095 \<le> uint x"
  by (simp add: IS_ERR_VALUE_def MAX_ERRNO_def word_le_def)

lemma IS_ERR_VALUE_neg_errno: "IS_ERR_VALUE (neg_errno e)"
  by (cases e) (simp_all add: IS_ERR_VALUE_uint neg_errno_def)

text \<open>
  Whatever the size of the region: a returned value beyond the size, in the unsigned
  order, comes from one of the three error branches, and the file is as it was.
\<close>

lemma pmem_lseek_beyond_size:
  assumes "size_bytes vpmem < fst (pmem_lseek vpmem filp off whence)"
  shows "snd (pmem_lseek vpmem filp off whence) = filp \<and>
     (fst (pmem_lseek vpmem filp off whence) = neg_errno ESPIPE \<or>
      fst (pmem_lseek vpmem filp off whence) = neg_errno EINVAL)"
  using assms by (auto simp: pmem_lseek_def Let_def split: if_splits)

text \<open>For a size of at most \<open>2 ^ 63\<close> every error value is beyond the size.\<close>

lemma IS_ERR_VALUE_beyond:
  assumes "uint (s::u64) \<le> 2 ^ 63" and "IS_ERR_VALUE r"
  shows "s < r"
  using assms by (simp add: IS_ERR_VALUE_uint word_less_def)

text \<open>
  The same for a caller that takes every negative value for an error, for a size below
  \<open>2 ^ 63\<close>: a negative value returned leaves the file as it was.
\<close>

lemma pmem_lseek_negative_keeps_position:
  assumes "uint (size_bytes vpmem) < 2 ^ 63"
    and "sint (fst (pmem_lseek vpmem filp off whence)) < 0"
  shows "snd (pmem_lseek vpmem filp off whence) = filp"
proof -
  have "2 ^ 63 \<le> uint (fst (pmem_lseek vpmem filp off whence))"
    using assms(2) by (simp add: sint64_cases split: if_splits)
  then have "size_bytes vpmem < fst (pmem_lseek vpmem filp off whence)"
    using assms(1) by (simp add: word_less_def)
  then show ?thesis
    using pmem_lseek_beyond_size by blast
qed

text \<open>
  Claim C6 as stated (an out-of-range \<open>SET\<close> or \<open>CUR\<close> target fails with
  InvalidArgument) does not hold: seeking to offset 16 of the 16-byte region returns
  \<^verbatim>\<open>-ESPIPE\<close>, not \<^verbatim>\<open>-EINVAL\<close>.
\<close>

theorem pmem_lseek_out_of_range_is_ESPIPE:
  "fst (pmem_lseek ex_vpmem \<lparr>f_pos = 0\<rparr> 16 SEEK_SET) = neg_errno ESPIPE \<and>
   fst (pmem_lseek ex_vpmem \<lparr>f_pos = 0\<rparr> 16 SEEK_SET) \<noteq> neg_errno EINVAL"
  by (simp add: pmem_lseek_def ex_defs neg_errno_def)

text \<open>
  Claim C6, amended: for a region size of at most \<open>2 ^ 63\<close>, seek with whence
  \<open>SET\<close> or \<open>CUR\<close> succeeds, returning and storing the resulting position (\<open>off\<close>,
  or \<open>f_pos + off\<close> in 64-bit arithmetic), exactly when that position satisfies
  \<open>0 \<le> pos < size\<close>, and fails with \<^verbatim>\<open>-ESPIPE\<close> otherwise; whence \<open>END\<close> always
  sets the position to exactly \<open>size\<close>; any other whence fails with \<^verbatim>\<open>-EINVAL\<close>.
  The value returned is an error value on the failing paths and on no other.
\<close>

theorem pmem_lseek_result:
  assumes "uint (size_bytes vpmem) \<le> 2 ^ 63"
  shows "pmem_lseek vpmem filp off whence =
     (if whence = SEEK_SET \<or> whence = SEEK_CUR then
        (let newpos = (if whence = SEEK_SET then off else f_pos filp + off)
         in if 0 \<le> sint newpos \<and> sint newpos < uint (size_bytes vpmem)
            then (newpos, filp\<lparr>f_pos := newpos\<rparr>)
            else (neg_errno ESPIPE, filp))
      else if whence = SEEK_END
        then (size_bytes vpmem, filp\<lparr>f_pos := size_bytes vpmem\<rparr>)
      else (neg_errno EINVAL, filp)) \<and>
     (IS_ERR_VALUE (fst (pmem_lseek vpmem filp off whence)) \<longleftrightarrow>
        (if whence = SEEK_SET \<or> whence = SEEK_CUR then
           (let newpos = (if whence = SEEK_SET then off else f_pos filp + off)
            in \<not> (0 \<le> sint newpos \<and> sint newpos < uint (size_bytes vpmem)))
         else whence \<noteq> SEEK_END))"
proof -
  have s: "\<not> IS_ERR_VALUE (size_bytes vpmem)"
    using assms by (simp add: IS_ERR_VALUE_uint)
  have n: "\<not> IS_ERR_VALUE x" if "x < size_bytes vpmem" for x
    using that assms by (simp add: IS_ERR_VALUE_uint word_less_def)
  show ?thesis
    using word64_less_signed[OF assms, of off]
      word64_less_signed[OF assms, of "f_pos filp + off"] s n[of off] n[of "f_pos filp + off"]
    by (auto simp: pmem_lseek_def Let_def not_le SEEK_SET_def SEEK_CUR_def
        IS_ERR_VALUE_neg_errno)
qed

theorem pmem_lseek_result_witness:
  "uint (size_bytes ex_vpmem) \<le> 2 ^ 63 \<and>
   pmem_lseek ex_vpmem \<lparr>f_pos = 3\<rparr> (- 1) SEEK_CUR = (2, \<lparr>f_pos = 2\<rparr>) \<and>
   \<not> IS_ERR_VALUE (fst (pmem_lseek ex_vpmem \<lparr>f_pos = 3\<rparr> (- 1) SEEK_CUR)) \<and>
   pmem_lseek ex_vpmem \<lparr>f_pos = 3\<rparr> (- 4) SEEK_CUR = (neg_errno ESPIPE, \<lparr>f_pos = 3\<rparr>) \<and>
   IS_ERR_VALUE (fst (pmem_lseek ex_vpmem \<lparr>f_pos = 3\<rparr> (- 4) SEEK_CUR))"
proof -
  have h: "uint (size_bytes ex_vpmem) \<le> 2 ^ 63"
    by (simp add: ex_vpmem_def)
  have a: "pmem_lseek ex_vpmem \<lparr>f_pos = 3\<rparr> (- 1) SEEK_CUR = (2, \<lparr>f_pos = 2\<rparr>) \<and>
      \<not> IS_ERR_VALUE (fst (pmem_lseek ex_vpmem \<lparr>f_pos = 3\<rparr> (- 1) SEEK_CUR))"
    using pmem_lseek_result[OF h, of "\<lparr>f_pos = 3\<rparr>" "- 1" SEEK_CUR]
    by (auto simp: ex_vpmem_def SEEK_SET_def SEEK_CUR_def)
  have b: "pmem_lseek ex_vpmem \<lparr>f_pos = 3\<rparr> (- 4) SEEK_CUR =
        (neg_errno ESPIPE, \<lparr>f_pos = 3\<rparr>) \<and>
      IS_ERR_VALUE (fst (pmem_lseek ex_vpmem \<lparr>f_pos = 3\<rparr> (- 4) SEEK_CUR))"
    using pmem_lseek_result[OF h, of "\<lparr>f_pos = 3\<rparr>" "- 4" SEEK_CUR]
    by (auto simp: ex_vpmem_def SEEK_SET_def SEEK_CUR_def)
  show ?thesis
    using h a b by blast
qed

text \<open>
  Claim C9 as stated (for every position, delta and whence, a seek that fails leaves
  the position unchanged) does not hold for a region of more than \<open>2 ^ 63\<close> bytes: on
  the region of \<open>2 ^ 64 - 22\<close> bytes, seek with whence \<open>END\<close> from position 3 returns
  \<open>- 22\<close>, which is \<^verbatim>\<open>-EINVAL\<close> to the caller, and has stored \<open>- 22\<close> as the position.
\<close>

theorem pmem_lseek_error_return_with_position_changed:
  "pmem_lseek ex_huge \<lparr>f_pos = 3\<rparr> 0 SEEK_END = (neg_errno EINVAL, \<lparr>f_pos = - 22\<rparr>) \<and>
   IS_ERR_VALUE (fst (pmem_lseek ex_huge \<lparr>f_pos = 3\<rparr> 0 SEEK_END)) \<and>
   snd (pmem_lseek ex_huge \<lparr>f_pos = 3\<rparr> 0 SEEK_END) \<noteq> \<lparr>f_pos = 3\<rparr>"
  by (simp add: pmem_lseek_def ex_huge_def neg_errno_def SEEK_SET_def SEEK_CUR_def SEEK_END_def
      IS_ERR_VALUE_uint)

text \<open>
  Claim C9, amended (failed seek): for a region size of at most \<open>2 ^ 63\<close>, when the
  value seek returns is an error value, the file is returned as it was, so the position
  is not updated; and the value is \<^verbatim>\<open>-ESPIPE\<close> (resulting position out of range) or
  \<^verbatim>\<open>-EINVAL\<close> (unrecognised whence).
\<close>

theorem pmem_lseek_error_keeps_position:
  assumes "uint (size_bytes vpmem) \<le> 2 ^ 63"
    and "IS_ERR_VALUE (fst (pmem_lseek vpmem filp off whence))"
  shows "snd (pmem_lseek vpmem filp off whence) = filp \<and>
     (fst (pmem_lseek vpmem filp off whence) = neg_errno ESPIPE \<or>
      fst (pmem_lseek vpmem filp off whence) = neg_errno EINVAL)"
  using IS_ERR_VALUE_beyond[OF assms] by (rule pmem_lseek_beyond_size)

theorem pmem_lseek_error_keeps_position_witness:
  "uint (size_bytes ex_vpmem) \<le> 2 ^ 63 \<and>
   IS_ERR_VALUE (fst (pmem_lseek ex_vpmem \<lparr>f_pos = 3\<rparr> 7 5)) \<and>
   fst (pmem_lseek ex_vpmem \<lparr>f_pos = 3\<rparr> 7 5) = neg_errno EINVAL \<and>
   snd (pmem_lseek ex_vpmem \<lparr>f_pos = 3\<rparr> 7 5) = \<lparr>f_pos = 3\<rparr>"
proof -
  have h: "uint (size_bytes ex_vpmem) \<le> 2 ^ 63"
    by (simp add: ex_vpmem_def)
  have r: "fst (pmem_lseek ex_vpmem \<lparr>f_pos = 3\<rparr> 7 5) = neg_errno EINVAL"
    by (simp add: pmem_lseek_def SEEK_SET_def SEEK_CUR_def SEEK_END_def)
  have e: "IS_ERR_VALUE (fst (pmem_lseek ex_vpmem \<lparr>f_pos = 3\<rparr> 7 5))"
    by (simp add: r IS_ERR_VALUE_neg_errno)
  show ?thesis
    using h e r pmem_lseek_error_keeps_position[OF h e] by simp
qed

section \<open>Properties of teardown\<close>

text \<open>
  Claim C3 as stated (teardown fails every request that is still deferred or queued
  with a Canceled status and wakes its caller, so that no caller remains blocked) does
  not hold: after \<open>virtio_pmem_remove\<close> in the teardown scenario, the callers of all
  five requests are still blocked and the three deferred requests are still parked.
\<close>

theorem teardown_leaves_callers_blocked:
  "caller_blocked (virtio_pmem_remove ex_driver) 0 \<and>
   caller_blocked (virtio_pmem_remove ex_driver) 1 \<and>
   caller_blocked (virtio_pmem_remove ex_driver) 2 \<and>
   caller_blocked (virtio_pmem_remove ex_driver) 3 \<and>
   caller_blocked (virtio_pmem_remove ex_driver) 4 \<and>
   req_list (vpmem_global (virtio_pmem_remove ex_driver)) = [2, 3, 4]"
  by (simp add: caller_blocked_def virtio_pmem_remove_def ex_driver_def ex_request_def)

text \<open>
  Claim C3, amended: teardown deletes the virtqueue, resets the device, releases the
  region and removes the device node, and it touches no request: every request record
  and the list of deferred requests are what they were, so a caller that was blocked
  before teardown is blocked after it.
\<close>

theorem virtio_pmem_remove_keeps_requests:
  "requests (virtio_pmem_remove d) = requests d \<and>
   req_list (vpmem_global (virtio_pmem_remove d)) = req_list (vpmem_global d) \<and>
   caller_blocked (virtio_pmem_remove d) h = caller_blocked d h \<and>
   req_vq (vpmem_global (virtio_pmem_remove d)) = None \<and>
   dev_reset (virtio_pmem_remove d) \<and>
   \<not> region_reserved (virtio_pmem_remove d) \<and>
   \<not> misc_registered (virtio_pmem_remove d)"
  by (simp add: caller_blocked_def virtio_pmem_remove_def)

section \<open>Properties of the flush request engine\<close>

subsection \<open>Promotion\<close>

lemma promote_Nil: "deferred e = [] \<Longrightarrow> promote e = e"
  by (subst promote.simps) simp

lemma promote_full: "\<not> length (channel e) < capacity e \<Longrightarrow> promote e = e"
  by (subst promote.simps) (simp split: list.splits)

lemma promote_Cons:
  "deferred e = r # rest \<Longrightarrow> length (channel e) < capacity e \<Longrightarrow>
   promote e = promote (e\<lparr>deferred := rest, channel := channel e @ [r], host_notified := Suc (host_notified e)\<rparr>)"
  by (subst promote.simps) (simp add: offer_def notifyHost_def)

lemma promote_fields:
  "capacity (promote e) = capacity e \<and> flagged (promote e) = flagged e \<and>
   wakeups (promote e) = wakeups e \<and> retired (promote e) = retired e \<and>
   submitted (promote e) = submitted e \<and>
   channel (promote e) @ deferred (promote e) = channel e @ deferred e"
proof (induction e rule: promote.induct)
  case (1 e)
  show ?case
  proof (cases "deferred e")
    case Nil
    then show ?thesis by (simp add: promote_Nil)
  next
    case (Cons r rest)
    show ?thesis
    proof (cases "length (channel e) < capacity e")
      case True
      have "snd (offer r (e\<lparr>deferred := rest\<rparr>)) = e\<lparr>deferred := rest, channel := channel e @ [r]\<rparr>"
        using True by (simp add: offer_def)
      with "1.IH"[OF Cons True] show ?thesis
        by (simp add: promote_Cons[OF Cons True] notifyHost_def Cons)
    next
      case False
      then show ?thesis by (simp add: promote_full)
    qed
  qed
qed

lemma promote_bound:
  "length (channel e) \<le> capacity e \<Longrightarrow>
   length (channel (promote e)) \<le> capacity e \<and>
   (deferred (promote e) = [] \<or> length (channel (promote e)) = capacity e)"
proof (induction e rule: promote.induct)
  case (1 e)
  show ?case
  proof (cases "deferred e")
    case Nil
    then show ?thesis using "1.prems" by (simp add: promote_Nil)
  next
    case (Cons r rest)
    show ?thesis
    proof (cases "length (channel e) < capacity e")
      case True
      have "snd (offer r (e\<lparr>deferred := rest\<rparr>)) = e\<lparr>deferred := rest, channel := channel e @ [r]\<rparr>"
        using True by (simp add: offer_def)
      with "1.IH"[OF Cons True] True show ?thesis
        by (simp add: promote_Cons[OF Cons True] notifyHost_def Cons)
    next
      case False
      then show ?thesis using "1.prems" by (simp add: promote_full)
    qed
  qed
qed

lemma promote_inv:
  assumes "distinct (channel e @ deferred e @ wakeups e)"
    "set (channel e) \<union> set (deferred e) \<union> set (wakeups e) = {0..<submitted e}"
    "flagged e = set (wakeups e)" "retired e \<subseteq> flagged e"
    "length (channel e) \<le> capacity e"
    "sorted (channel e @ deferred e)"
  shows "engine_inv (promote e)"
proof -
  let ?p = "promote e"
  have f: "capacity ?p = capacity e" "flagged ?p = flagged e" "wakeups ?p = wakeups e"
    "retired ?p = retired e" "submitted ?p = submitted e"
    "channel ?p @ deferred ?p = channel e @ deferred e"
    using promote_fields[of e] by simp_all
  have "set (channel ?p) \<union> set (deferred ?p) = set (channel e) \<union> set (deferred e)"
    using f(6) by (metis set_append)
  moreover have "distinct (channel ?p @ deferred ?p @ wakeups ?p)"
    using assms(1) f(6) f(3) by (metis append.assoc)
  ultimately show ?thesis
    using assms promote_bound[OF assms(5)] f by (simp add: engine_inv_def)
qed

lemma submit_inv:
  assumes "engine_inv e"
  shows "engine_inv (submit e)"
proof -
  let ?r = "submitted e"
  have fresh: "?r \<notin> set (channel e)" "?r \<notin> set (deferred e)" "?r \<notin> set (wakeups e)"
    using assms by (auto simp: engine_inv_def)
  have un: "insert ?r (set (channel e) \<union> set (deferred e) \<union> set (wakeups e)) = {0..<Suc ?r}"
    using assms by (auto simp: engine_inv_def)
  have "\<forall>x \<in> set (channel e) \<union> set (deferred e). x \<in> {0..<submitted e}"
    using assms unfolding engine_inv_def by blast
  then have lt: "\<forall>x \<in> set (channel e). x \<le> submitted e"
    "\<forall>x \<in> set (deferred e). x \<le> submitted e"
    by (auto simp: Ball_def less_imp_le)
  show ?thesis
  proof (cases "length (channel e) < capacity e")
    case True
    then have d: "deferred e = []"
      using assms by (auto simp: engine_inv_def)
    show ?thesis
      using assms True fresh un d lt
      by (auto simp: submit_def offer_def notifyHost_def engine_inv_def Let_def sorted_append)
  next
    case False
    then show ?thesis
      using assms fresh un lt
      by (auto simp: submit_def offer_def engine_inv_def Let_def sorted_append)
  qed
qed

lemma onHostSignal_inv:
  assumes "engine_inv e"
  shows "engine_inv (onHostSignal hs e)"
proof -
  define fin where "fin = filter (\<lambda>r. r \<in> set (channel e)) (remdups hs)"
  define e2 where "e2 = e\<lparr>channel := filter (\<lambda>r. r \<notin> set fin) (channel e),
      flagged := flagged e \<union> set fin, wakeups := wakeups e @ fin\<rparr>"
  have eq: "onHostSignal hs e = promote e2"
    by (simp add: onHostSignal_def drainCompleted_def Let_def fin_def e2_def)
  have sub: "set fin \<subseteq> set (channel e)" and dfin: "distinct fin"
    by (auto simp: fin_def)
  have a: "distinct (channel e2 @ deferred e2 @ wakeups e2)"
    using assms sub dfin by (auto simp: e2_def engine_inv_def)
  have b: "set (channel e2) \<union> set (deferred e2) \<union> set (wakeups e2) = {0..<submitted e2}"
  proof -
    have "set (channel e2) \<union> set (deferred e2) \<union> set (wakeups e2) =
        set (channel e) \<union> set (deferred e) \<union> set (wakeups e)"
      using sub by (auto simp: e2_def)
    then show ?thesis using assms by (simp add: engine_inv_def e2_def)
  qed
  have c: "flagged e2 = set (wakeups e2)" "retired e2 \<subseteq> flagged e2"
    using assms by (auto simp: e2_def engine_inv_def)
  have "length (channel e) \<le> capacity e"
    using assms by (simp add: engine_inv_def)
  then have d: "length (channel e2) \<le> capacity e2"
    using le_trans[OF length_filter_le, of "channel e" "capacity e"] by (simp add: e2_def)
  have s: "sorted (channel e2 @ deferred e2)"
    using assms by (auto simp: e2_def engine_inv_def sorted_append sorted_wrt_filter)
  show ?thesis
    unfolding eq by (rule promote_inv[OF a b c d s])
qed

lemma retire_inv: "engine_inv e \<Longrightarrow> engine_inv (retire r e)"
  by (auto simp: engine_inv_def retire_def)

lemma step_inv: "engine_inv e \<Longrightarrow> engine_inv (step ev e)"
  by (cases ev) (simp_all add: submit_inv onHostSignal_inv retire_inv)

lemma init_inv: "engine_inv (engine_init c)"
  by (simp add: engine_inv_def engine_init_def)

lemma run_inv: "engine_inv e \<Longrightarrow> engine_inv (run es e)"
  unfolding run_def by (induction es arbitrary: e) (simp_all add: step_inv)

lemma step_capacity: "capacity (step ev e) = capacity e"
  by (cases ev) (simp_all add: submit_def offer_def notifyHost_def onHostSignal_def
      drainCompleted_def retire_def Let_def promote_fields)

lemma run_capacity: "capacity (run es e) = capacity e"
  unfolding run_def by (induction es arbitrary: e) (simp_all add: step_capacity)

subsection \<open>Acknowledgement\<close>

lemma count_list_distinct: "distinct xs \<Longrightarrow> count_list xs r = (if r \<in> set xs then 1 else 0)"
  by (induction xs) auto

lemma inv_at_most_once: "engine_inv e \<Longrightarrow> count_list (wakeups e) r \<le> 1"
  by (simp add: engine_inv_def count_list_distinct)

lemma inv_request_acked:
  assumes "engine_inv e" "0 < capacity e" "r < submitted e"
    and ahead: "\<forall>q \<in> set (channel e). r < q"
  shows "acked_once e r"
proof -
  have nc: "r \<notin> set (channel e)"
    using ahead by auto
  have nd: "r \<notin> set (deferred e)"
  proof
    assume rd: "r \<in> set (deferred e)"
    then have "deferred e \<noteq> []" by auto
    then have "length (channel e) = capacity e"
      using assms(1) by (auto simp: engine_inv_def)
    then obtain q where q: "q \<in> set (channel e)"
      using assms(2) by (cases "channel e") auto
    have "sorted (channel e @ deferred e)"
      using assms(1) by (simp add: engine_inv_def)
    then have "q \<le> r"
      using q rd by (auto simp: sorted_append)
    then show False using ahead q by auto
  qed
  have "r \<in> set (channel e) \<union> set (deferred e) \<union> set (wakeups e)"
    using assms(1,3) by (simp add: engine_inv_def)
  then have w: "r \<in> set (wakeups e)"
    using nc nd by simp
  have "distinct (wakeups e)" "flagged e = set (wakeups e)"
    using assms(1) by (simp_all add: engine_inv_def)
  then show ?thesis
    using w by (simp add: acked_once_def lifecycle_of_def count_list_distinct)
qed

lemma inv_quiescent:
  assumes "engine_inv e" "0 < capacity e" "channel e = []"
  shows "all_acked e"
  using inv_request_acked[OF assms(1,2)] assms(3)
  by (simp add: all_acked_def list_all_iff)

lemma promote_deferred_le: "length (deferred (promote e)) \<le> length (deferred e)"
proof (induction e rule: promote.induct)
  case (1 e)
  show ?case
  proof (cases "deferred e")
    case Nil
    then show ?thesis by (simp add: promote_Nil)
  next
    case (Cons r rest)
    show ?thesis
    proof (cases "length (channel e) < capacity e")
      case True
      have "snd (offer r (e\<lparr>deferred := rest\<rparr>)) = e\<lparr>deferred := rest, channel := channel e @ [r]\<rparr>"
        using True by (simp add: offer_def)
      with "1.IH"[OF Cons True] show ?thesis
        by (simp add: promote_Cons[OF Cons True] notifyHost_def Cons)
    next
      case False
      then show ?thesis by (simp add: promote_full)
    qed
  qed
qed

lemma promote_deferred_less:
  assumes "deferred e \<noteq> []" "length (channel e) < capacity e"
  shows "length (deferred (promote e)) < length (deferred e)"
proof -
  obtain r rest where c: "deferred e = r # rest"
    using assms(1) by (cases "deferred e") auto
  let ?e' = "e\<lparr>deferred := rest, channel := channel e @ [r], host_notified := Suc (host_notified e)\<rparr>"
  have "length (deferred (promote ?e')) \<le> length (deferred ?e')"
    by (rule promote_deferred_le)
  then show ?thesis
    by (simp add: promote_Cons[OF c assms(2)] c)
qed

lemma host_ack_all_eq:
  assumes "engine_inv e"
  shows "host_ack_all e =
     promote (e\<lparr>channel := [], flagged := flagged e \<union> set (channel e),
                wakeups := wakeups e @ channel e\<rparr>)"
proof -
  have "distinct (channel e)"
    using assms by (simp add: engine_inv_def)
  then show ?thesis
    by (simp add: host_ack_all_def onHostSignal_def drainCompleted_def Let_def
        distinct_remdups_id)
qed

lemma host_ack_all_deferred:
  assumes "engine_inv e" "0 < capacity e"
  shows "(deferred e = [] \<and> channel (host_ack_all e) = [] \<and> deferred (host_ack_all e) = []) \<or>
     length (deferred (host_ack_all e)) < length (deferred e)"
proof (cases "deferred e = []")
  case True
  then show ?thesis by (simp add: host_ack_all_eq[OF assms(1)] promote_Nil)
next
  case False
  let ?e' = "e\<lparr>channel := [], flagged := flagged e \<union> set (channel e),
                wakeups := wakeups e @ channel e\<rparr>"
  have "length (deferred (promote ?e')) < length (deferred ?e')"
    using False assms(2) by (intro promote_deferred_less) simp_all
  then show ?thesis by (simp add: host_ack_all_eq[OF assms(1)])
qed

lemma host_ack_all_inv: "engine_inv e \<Longrightarrow> engine_inv (host_ack_all e)"
  by (simp add: host_ack_all_def onHostSignal_inv)

lemma host_ack_all_fields:
  "capacity (host_ack_all e) = capacity e \<and> submitted (host_ack_all e) = submitted e"
  by (simp add: host_ack_all_def onHostSignal_def drainCompleted_def Let_def promote_fields)

lemma ack_all_settles:
  assumes "engine_inv e" "0 < capacity e" "length (deferred e) < n"
  shows "engine_inv ((host_ack_all ^^ n) e) \<and>
     capacity ((host_ack_all ^^ n) e) = capacity e \<and>
     submitted ((host_ack_all ^^ n) e) = submitted e \<and>
     channel ((host_ack_all ^^ n) e) = [] \<and> deferred ((host_ack_all ^^ n) e) = []"
  using assms
proof (induction n arbitrary: e)
  case 0
  then show ?case by simp
next
  case (Suc n)
  let ?e1 = "host_ack_all e"
  have i1: "engine_inv ?e1" and c1: "capacity ?e1 = capacity e" and s1: "submitted ?e1 = submitted e"
    using Suc.prems(1) by (simp_all add: host_ack_all_inv host_ack_all_fields)
  have eq: "(host_ack_all ^^ Suc n) e = (host_ack_all ^^ n) ?e1"
    by (simp add: funpow_swap1)
  show ?case
  proof (cases n)
    case 0
    then have "deferred e = []" using Suc.prems(3) by simp
    then show ?thesis
      using host_ack_all_deferred[OF Suc.prems(1,2)] 0 i1 c1 s1 by simp
  next
    case (Suc m)
    have "length (deferred ?e1) < n"
      using host_ack_all_deferred[OF Suc.prems(1,2)] Suc.prems(3) Suc by auto
    from Suc.IH[OF i1 _ this] Suc.prems(2) c1 s1 show ?thesis
      unfolding eq by simp
  qed
qed

subsection \<open>A host that acknowledges everything\<close>

text \<open>
  In the state \<open>e\<close> reached by any finite interleaving \<open>es\<close>, on a channel of
  capacity at least one: no request has been notified more than once; a submitted request
  \<open>r\<close> is acknowledged, with exactly one notification, as soon as the host owes no
  acknowledgement to a request accepted at or before \<open>r\<close>; and if from \<open>e\<close> on the
  host acknowledges at each signal every request it has accepted, then after more signals
  than there are deferred requests every submitted request is acknowledged once.
\<close>

lemma host_ack_all_completes:
  assumes "0 < c"
  shows "let e = run es (engine_init c) in
     (\<forall>r. count_list (wakeups e) r \<le> 1) \<and>
     (\<forall>r < submitted e. (\<forall>q \<in> set (channel e). r < q) \<longrightarrow> acked_once e r) \<and>
     (\<forall>n > length (deferred e).
        submitted ((host_ack_all ^^ n) e) = submitted e \<and>
        all_acked ((host_ack_all ^^ n) e))"
proof -
  define e where "e = run es (engine_init c)"
  have i: "engine_inv e"
    by (simp add: e_def run_inv init_inv)
  have cap: "capacity e = c"
    by (simp add: e_def run_capacity engine_init_def)
  have 1: "\<forall>r. count_list (wakeups e) r \<le> 1"
    using inv_at_most_once[OF i] by blast
  have 2: "\<forall>r < submitted e. (\<forall>q \<in> set (channel e). r < q) \<longrightarrow> acked_once e r"
    using inv_request_acked[OF i] cap assms by simp
  have 4: "\<forall>n > length (deferred e).
        submitted ((host_ack_all ^^ n) e) = submitted e \<and>
        all_acked ((host_ack_all ^^ n) e)"
  proof (intro allI impI)
    fix n assume n: "length (deferred e) < n"
    have c0: "0 < capacity e" using cap assms by simp
    from ack_all_settles[OF i c0 n]
    show "submitted ((host_ack_all ^^ n) e) = submitted e \<and>
        all_acked ((host_ack_all ^^ n) e)"
      using inv_quiescent[of "(host_ack_all ^^ n) e"] c0 by simp
  qed
  show ?thesis
    using 1 2 4 unfolding e_def[symmetric] Let_def by blast
qed

lemma host_ack_all_completes_example:
  "run ex_events (engine_init 2) =
     \<lparr>capacity = 2, channel = [0, 2], deferred = [3, 4], flagged = {1}, wakeups = [1],
      retired = {1}, host_notified = 3, submitted = 5\<rparr> \<and>
   (host_ack_all ^^ 3) (run ex_events (engine_init 2)) = ex_final"
  by code_simp

subsection \<open>Unbounded interleavings\<close>

lemma trace_inv: "engine_inv (trace_state c \<sigma> k)"
  by (induction k) (simp_all add: init_inv step_inv)

lemma trace_capacity: "capacity (trace_state c \<sigma> k) = c"
  by (induction k) (simp_all add: engine_init_def step_capacity)

lemma promote_queue: "set (channel (promote e)) \<union> set (deferred (promote e)) = set (channel e) \<union> set (deferred e)"
proof -
  have "channel (promote e) @ deferred (promote e) = channel e @ deferred e"
    using promote_fields[of e] by simp
  then show ?thesis by (metis set_append)
qed

lemma step_queue:
  "set (channel (step ev e)) \<union> set (deferred (step ev e)) \<subseteq>
     insert (submitted e) (set (channel e) \<union> set (deferred e))"
proof (cases ev)
  case Submit
  then show ?thesis by (auto simp: submit_def offer_def notifyHost_def Let_def)
next
  case (HostSignal hs)
  define fin where "fin = fst (drainCompleted hs e)"
  define e2 where "e2 = e\<lparr>channel := filter (\<lambda>r. r \<notin> set fin) (channel e),
      flagged := flagged e \<union> set fin, wakeups := wakeups e @ fin\<rparr>"
  have "step ev e = promote e2"
    using HostSignal by (simp add: onHostSignal_def drainCompleted_def Let_def fin_def e2_def)
  then have "set (channel (step ev e)) \<union> set (deferred (step ev e)) =
      set (channel e2) \<union> set (deferred e2)"
    by (simp add: promote_queue)
  also have "\<dots> \<subseteq> set (channel e) \<union> set (deferred e)"
    by (auto simp: e2_def)
  finally show ?thesis by blast
next
  case (Retire r)
  then show ?thesis by (auto simp: retire_def)
qed

lemma step_submitted: "submitted e \<le> submitted (step ev e)"
  by (cases ev) (simp_all add: submit_def offer_def notifyHost_def onHostSignal_def
      drainCompleted_def retire_def Let_def promote_fields)

lemma step_wakeups: "set (wakeups e) \<subseteq> set (wakeups (step ev e))"
  by (cases ev) (auto simp: submit_def offer_def notifyHost_def onHostSignal_def
      drainCompleted_def retire_def Let_def promote_fields)

lemma step_pending:
  assumes "r < submitted e"
  shows "pending_ahead (step ev e) r \<subseteq> pending_ahead e r"
  using step_queue[of ev e] assms unfolding pending_ahead_def by auto

lemma trace_mono:
  assumes "k \<le> j"
  shows "submitted (trace_state c \<sigma> k) \<le> submitted (trace_state c \<sigma> j) \<and>
     set (wakeups (trace_state c \<sigma> k)) \<subseteq> set (wakeups (trace_state c \<sigma> j)) \<and>
     (r < submitted (trace_state c \<sigma> k) \<longrightarrow>
        pending_ahead (trace_state c \<sigma> j) r \<subseteq> pending_ahead (trace_state c \<sigma> k) r)"
  using assms
proof (induction j rule: dec_induct)
  case base
  then show ?case by simp
next
  case (step j)
  let ?e = "trace_state c \<sigma> j"
  have s: "submitted ?e \<le> submitted (step (\<sigma> j) ?e)"
    by (rule step_submitted)
  have w: "set (wakeups ?e) \<subseteq> set (wakeups (step (\<sigma> j) ?e))"
    by (rule step_wakeups)
  have p: "r < submitted ?e \<longrightarrow> pending_ahead (step (\<sigma> j) ?e) r \<subseteq> pending_ahead ?e r"
    using step_pending by blast
  have r: "r < submitted (trace_state c \<sigma> k) \<longrightarrow> r < submitted ?e"
    using step.IH by auto
  have 1: "submitted (trace_state c \<sigma> k) \<le> submitted (trace_state c \<sigma> (Suc j))"
    using step.IH s by simp
  have 2: "set (wakeups (trace_state c \<sigma> k)) \<subseteq> set (wakeups (trace_state c \<sigma> (Suc j)))"
    using step.IH w by auto
  have 3: "r < submitted (trace_state c \<sigma> k) \<longrightarrow>
        pending_ahead (trace_state c \<sigma> (Suc j)) r \<subseteq> pending_ahead (trace_state c \<sigma> k) r"
    using step.IH p r by auto
  show ?case
    using 1 2 3 by blast
qed

lemma inv_acked_iff:
  assumes "engine_inv e"
  shows "acked_once e r \<longleftrightarrow> r \<in> set (wakeups e)"
proof -
  have "distinct (wakeups e)" "flagged e = set (wakeups e)"
    using assms by (simp_all add: engine_inv_def)
  then show ?thesis
    by (auto simp: acked_once_def lifecycle_of_def count_list_distinct)
qed

text \<open>
  What the engine does with a host signal: a request in flight that the signal reports
  finished is woken by it; and a request in flight stays in flight until it is woken.
\<close>

lemma promote_channel_mono: "set (channel e) \<subseteq> set (channel (promote e))"
proof (induction e rule: promote.induct)
  case (1 e)
  show ?case
  proof (cases "deferred e")
    case Nil
    then show ?thesis by (simp add: promote_Nil)
  next
    case (Cons r rest)
    show ?thesis
    proof (cases "length (channel e) < capacity e")
      case True
      have "snd (offer r (e\<lparr>deferred := rest\<rparr>)) = e\<lparr>deferred := rest, channel := channel e @ [r]\<rparr>"
        using True by (simp add: offer_def)
      with "1.IH"[OF Cons True] show ?thesis
        by (auto simp: promote_Cons[OF Cons True] notifyHost_def)
    next
      case False
      then show ?thesis by (simp add: promote_full)
    qed
  qed
qed

lemma onHostSignal_unfold:
  "onHostSignal hs e =
     promote (e\<lparr>channel := filter (\<lambda>r. r \<notin> set (fst (drainCompleted hs e))) (channel e),
                flagged := flagged e \<union> set (fst (drainCompleted hs e)),
                wakeups := wakeups e @ fst (drainCompleted hs e)\<rparr>)"
  by (simp add: onHostSignal_def drainCompleted_def Let_def)

lemma host_signal_wakes:
  assumes "q \<in> set (channel e)" and "q \<in> set hs"
  shows "q \<in> set (wakeups (step (HostSignal hs) e))"
proof -
  have "q \<in> set (fst (drainCompleted hs e))"
    using assms by (simp add: drainCompleted_def Let_def)
  then show ?thesis
    using promote_fields by (simp add: onHostSignal_unfold)
qed

lemma step_in_flight:
  assumes "q \<in> set (channel e)"
  shows "q \<in> set (channel (step ev e)) \<or> q \<in> set (wakeups (step ev e))"
proof (cases ev)
  case Submit
  then show ?thesis
    using assms by (auto simp: submit_def offer_def notifyHost_def Let_def)
next
  case (HostSignal hs)
  let ?fin = "fst (drainCompleted hs e)"
  let ?e2 = "e\<lparr>channel := filter (\<lambda>r. r \<notin> set ?fin) (channel e),
      flagged := flagged e \<union> set ?fin, wakeups := wakeups e @ ?fin\<rparr>"
  have eq: "step ev e = promote ?e2"
    using HostSignal by (simp add: onHostSignal_unfold)
  show ?thesis
  proof (cases "q \<in> set ?fin")
    case True
    then have "q \<in> set (wakeups (promote ?e2))"
      using promote_fields[of ?e2] by simp
    then show ?thesis by (simp add: eq)
  next
    case False
    then have "q \<in> set (channel ?e2)"
      using assms by simp
    then have "q \<in> set (channel (promote ?e2))"
      using promote_channel_mono[of ?e2] by blast
    then show ?thesis by (simp add: eq)
  qed
next
  case (Retire r)
  then show ?thesis
    using assms by (simp add: retire_def)
qed

lemma trace_in_flight:
  assumes "k \<le> j" and "q \<in> set (channel (trace_state c \<sigma> k))"
  shows "q \<in> set (channel (trace_state c \<sigma> j)) \<or> q \<in> set (wakeups (trace_state c \<sigma> j))"
  using assms
proof (induction j rule: dec_induct)
  case base
  then show ?case by simp
next
  case (step j)
  from step.IH[OF step.prems] show ?case
  proof
    assume "q \<in> set (channel (trace_state c \<sigma> j))"
    then show ?thesis
      using step_in_flight[of q "trace_state c \<sigma> j" "\<sigma> j"] by simp
  next
    assume "q \<in> set (wakeups (trace_state c \<sigma> j))"
    then show ?thesis
      using step_wakeups[of "trace_state c \<sigma> j" "\<sigma> j"] by auto
  qed
qed

text \<open>
  Under a fair host the engine delivers the completion of every request in flight: this
  is where the drain, the flag and the wake-up of \<open>onHostSignal\<close> are used.
\<close>

lemma fair_host_delivers:
  assumes "fair_host c \<sigma>" and "q \<in> set (channel (trace_state c \<sigma> k))"
  shows "\<exists>j\<ge>k. q \<in> set (wakeups (trace_state c \<sigma> j))"
proof -
  obtain j hs where j: "k \<le> j" "\<sigma> j = HostSignal hs" "q \<in> set hs"
    using assms unfolding fair_host_def by blast
  from trace_in_flight[OF j(1) assms(2)] show ?thesis
  proof
    assume "q \<in> set (channel (trace_state c \<sigma> j))"
    then have "q \<in> set (wakeups (trace_state c \<sigma> (Suc j)))"
      using host_signal_wakes[OF _ j(3)] j(2) by simp
    then show ?thesis
      using j(1) le_SucI by blast
  next
    assume "q \<in> set (wakeups (trace_state c \<sigma> j))"
    then show ?thesis using j(1) by blast
  qed
qed

lemma eventually_woken:
  assumes c: "0 < c" and fair: "fair_host c \<sigma>"
  shows "r < submitted (trace_state c \<sigma> k) \<Longrightarrow> \<exists>j\<ge>k. r \<in> set (wakeups (trace_state c \<sigma> j))"
proof (induction "card (pending_ahead (trace_state c \<sigma> k) r)" arbitrary: k rule: less_induct)
  case less
  let ?e = "trace_state c \<sigma> k"
  show ?case
  proof (cases "r \<in> set (wakeups ?e)")
    case True
    then show ?thesis by blast
  next
    case False
    have i: "engine_inv ?e" by (rule trace_inv)
    have "\<not> acked_once ?e r"
      using False inv_acked_iff[OF i] by simp
    then have "\<not> (\<forall>q \<in> set (channel ?e). r < q)"
      using inv_request_acked[OF i _ less.prems] c by (auto simp: trace_capacity)
    then obtain q where q: "q \<in> set (channel ?e)" "q \<le> r"
      by (auto simp: not_less)
    then obtain j where j: "k \<le> j" "q \<in> set (wakeups (trace_state c \<sigma> j))"
      using fair_host_delivers[OF fair] by blast
    let ?e' = "trace_state c \<sigma> j"
    have i': "engine_inv ?e'" by (rule trace_inv)
    have m: "submitted ?e \<le> submitted ?e'" "pending_ahead ?e' r \<subseteq> pending_ahead ?e r"
      using trace_mono[OF j(1), of c \<sigma> r] less.prems by simp_all
    have "q \<in> pending_ahead ?e r"
      using q by (simp add: pending_ahead_def)
    moreover have "q \<notin> pending_ahead ?e' r"
      using j(2) i' by (auto simp: pending_ahead_def engine_inv_def)
    ultimately have "pending_ahead ?e' r \<subset> pending_ahead ?e r"
      using m(2) by blast
    moreover have "finite (pending_ahead ?e r)"
      by (simp add: pending_ahead_def)
    ultimately have "card (pending_ahead ?e' r) < card (pending_ahead ?e r)"
      by (simp add: psubset_card_mono)
    from less.hyps[OF this] m(1) less.prems
    obtain j' where "j \<le> j'" "r \<in> set (wakeups (trace_state c \<sigma> j'))"
      by auto
    then show ?thesis using j(1) by (meson order_trans)
  qed
qed

text \<open>The example interleaving has a fair host.\<close>

lemma ex_trace_9: "trace_state 2 ex_trace 9 = ex_final"
  by code_simp

lemma ex_trace_7: "submitted (trace_state 2 ex_trace 7) = 5"
  by code_simp

lemma ex_final_idle: "step (HostSignal [0, 1, 2, 3, 4]) ex_final = ex_final"
  by code_simp

lemma ex_trace_late: "9 \<le> k \<Longrightarrow> trace_state 2 ex_trace k = ex_final"
proof (induction k rule: dec_induct)
  case base
  show ?case by (rule ex_trace_9)
next
  case (step j)
  then have "ex_trace j = HostSignal [0, 1, 2, 3, 4]"
    by (simp add: ex_trace_def ex_events_def)
  then show ?case
    using step.IH ex_final_idle by simp
qed

lemma ex_trace_early:
  "list_all (\<lambda>k. list_all (\<lambda>q. q \<in> set [0, 1, 2, 3, 4]) (channel (trace_state 2 ex_trace k)))
     [0..<9]"
  by code_simp

lemma ex_trace_fair: "fair_host 2 ex_trace"
  unfolding fair_host_def
proof (intro allI impI)
  fix k q
  assume q: "q \<in> set (channel (trace_state 2 ex_trace k))"
  have "k < 9"
  proof (rule ccontr)
    assume "\<not> k < 9"
    then have "trace_state 2 ex_trace k = ex_final"
      by (intro ex_trace_late) simp
    then show False using q by (simp add: ex_final_def)
  qed
  then have "q \<in> set [0, 1, 2, 3, 4]"
    using ex_trace_early q by (simp add: list_all_iff)
  moreover have "ex_trace (k + 7) = HostSignal [0, 1, 2, 3, 4]"
    by (simp add: ex_trace_def ex_events_def)
  ultimately show "\<exists>j\<ge>k. \<exists>hs. ex_trace j = HostSignal hs \<and> q \<in> set hs"
    by (intro exI[of _ "k + 7"] exI[of _ "[0, 1, 2, 3, 4]"]) simp
qed

text \<open>With capacity 0 the one request submitted is parked for ever, and the host is fair.\<close>

lemma ex_stuck_first: "trace_state 0 ex_stuck (Suc 0) = ex_stuck_state"
  by code_simp

lemma ex_stuck_idle: "step (HostSignal [0]) ex_stuck_state = ex_stuck_state"
  by code_simp

lemma ex_stuck_always: "trace_state 0 ex_stuck (Suc k) = ex_stuck_state"
proof (induction k)
  case 0
  show ?case by (rule ex_stuck_first)
next
  case (Suc k)
  have "ex_stuck (Suc k) = HostSignal [0]"
    by (simp add: ex_stuck_def)
  then show ?case
    using Suc.IH ex_stuck_idle by simp
qed

lemma ex_stuck_fair: "fair_host 0 ex_stuck"
  unfolding fair_host_def
proof (intro allI impI)
  fix k q
  assume q: "q \<in> set (channel (trace_state 0 ex_stuck k))"
  have "channel (trace_state 0 ex_stuck k) = []"
    by (cases k)
      (simp_all add: engine_init_def ex_stuck_always ex_stuck_state_def
        del: trace_state.simps(2))
  then show "\<exists>j\<ge>k. \<exists>hs. ex_stuck j = HostSignal hs \<and> q \<in> set hs"
    using q by simp
qed

subsection \<open>No request is lost\<close>

text \<open>
  Claim C4 as stated (every submitted request is eventually notified, assuming only that
  the host eventually acknowledges every accepted request) does not hold for a channel
  of capacity 0: the host is fair, since nothing is ever accepted, and the one request
  submitted stays \<open>DEFERRED\<close> for ever and is never acknowledged.
\<close>

theorem capacity_zero_request_stays_deferred:
  "fair_host 0 ex_stuck \<and>
   0 < submitted (trace_state 0 ex_stuck 1) \<and>
   (\<forall>k. lifecycle_of (trace_state 0 ex_stuck (Suc k)) 0 = DEFERRED) \<and>
   \<not> (\<exists>j\<ge>1. \<forall>i\<ge>j. acked_once (trace_state 0 ex_stuck i) 0)"
proof -
  have s: "0 < submitted (trace_state 0 ex_stuck 1)"
    by (simp add: ex_stuck_always ex_stuck_state_def del: trace_state.simps(2))
  have d: "\<forall>k. lifecycle_of (trace_state 0 ex_stuck (Suc k)) 0 = DEFERRED"
    by (simp add: ex_stuck_always ex_stuck_state_def lifecycle_of_def
        del: trace_state.simps(2))
  have n: "\<not> (\<exists>j\<ge>1. \<forall>i\<ge>j. acked_once (trace_state 0 ex_stuck i) 0)"
  proof
    assume "\<exists>j\<ge>1. \<forall>i\<ge>j. acked_once (trace_state 0 ex_stuck i) 0"
    then obtain j where "1 \<le> j" "acked_once (trace_state 0 ex_stuck j) 0"
      by blast
    then obtain m where "j = Suc m" "acked_once (trace_state 0 ex_stuck j) 0"
      by (cases j) auto
    then show False
      by (simp add: ex_stuck_always ex_stuck_state_def acked_once_def
          del: trace_state.simps(2))
  qed
  show ?thesis
    using ex_stuck_fair s d n by blast
qed

text \<open>
  Claim C4, amended (no loss), for a channel of capacity at least one: under any
  unbounded interleaving \<open>\<sigma>\<close> of submissions, host signals and retirements in which the
  host eventually reports every request it has accepted as finished, no request is ever
  notified more than once, and every request submitted by some time \<open>k\<close> is, from some
  later time on and for ever, acknowledged with exactly one completion notification
  delivered: it does not remain \<open>CREATED\<close>, \<open>QUEUED\<close> or \<open>DEFERRED\<close>, whether or not
  the channel was full when it was submitted.
\<close>

theorem no_loss:
  assumes "0 < c" and "fair_host c \<sigma>"
  shows "(\<forall>k r. count_list (wakeups (trace_state c \<sigma> k)) r \<le> 1) \<and>
     (\<forall>k r. r < submitted (trace_state c \<sigma> k) \<longrightarrow>
        (\<exists>j\<ge>k. \<forall>i\<ge>j. acked_once (trace_state c \<sigma> i) r))"
proof (intro conjI allI impI)
  fix k r
  show "count_list (wakeups (trace_state c \<sigma> k)) r \<le> 1"
    by (rule inv_at_most_once[OF trace_inv])
next
  fix k r
  assume "r < submitted (trace_state c \<sigma> k)"
  from eventually_woken[OF assms this]
  obtain j where j: "k \<le> j" "r \<in> set (wakeups (trace_state c \<sigma> j))"
    by blast
  have "\<forall>i\<ge>j. acked_once (trace_state c \<sigma> i) r"
  proof (intro allI impI)
    fix i assume "j \<le> i"
    then have "r \<in> set (wakeups (trace_state c \<sigma> i))"
      using trace_mono[of j i c \<sigma> r] j(2) by blast
    then show "acked_once (trace_state c \<sigma> i) r"
      using inv_acked_iff[OF trace_inv] by simp
  qed
  then show "\<exists>j\<ge>k. \<forall>i\<ge>j. acked_once (trace_state c \<sigma> i) r"
    using j(1) by blast
qed

theorem no_loss_witness:
  "(0::nat) < 2 \<and> fair_host 2 ex_trace \<and> (4::nat) < submitted (trace_state 2 ex_trace 7) \<and>
   (\<exists>j\<ge>7. \<forall>i\<ge>j. acked_once (trace_state 2 ex_trace i) 4) \<and>
   count_list (wakeups (trace_state 2 ex_trace 9)) 4 = 1"
proof -
  have h: "(0::nat) < 2" by simp
  have s: "(4::nat) < submitted (trace_state 2 ex_trace 7)"
    by (simp add: ex_trace_7)
  have n: "count_list (wakeups (trace_state 2 ex_trace 9)) 4 = 1"
    by (simp add: ex_trace_9 ex_final_def)
  from no_loss[OF h ex_trace_fair] s
  have "\<exists>j\<ge>7. \<forall>i\<ge>j. acked_once (trace_state 2 ex_trace i) 4"
    by blast
  with h ex_trace_fair s n show ?thesis by blast
qed

end
